theory Spec2Isabelle
  imports Complex_Main
begin

section \<open>Opportunity scoring of \<open>ai_analyzer.py\<close>\<close>

text \<open>
  The development embeds the two pure computations of \<open>src/ai_analyzer.py\<close>:
  \<open>ProductAnalysisEngine.calculate_opportunity_score\<close> (a weighted sum over a dict) and
  the two \<open>extract_numeric_score\<close> methods (regular-expression search over a text).

  Conventions of the embedding.
  \<^item> A Python \<open>float\<close> (and an \<open>int\<close> used as a number) is an exact rational \<^typ>\<open>rat\<close>:
    the weights \<open>0.25\<close>, \<open>0.30\<close>, \<open>0.15\<close> are \<open>1/4\<close>, \<open>3/10\<close>, \<open>3/20\<close>, and no
    binary rounding error is modelled.
  \<^item> A Python \<open>str\<close> is a \<^typ>\<open>string\<close> whose characters are the code points below 256.
  \<^item> An exception is a value \<open>Inl e\<close> of the result type.
\<close>

datatype py_error = TypeError | ValueError

subsection \<open>Characters and \<open>str.lower\<close>\<close>

definition code :: "char \<Rightarrow> nat" where
  "code c = of_char c"

definition is_digit :: "char \<Rightarrow> bool" where
  \<comment> \<open>the class \<open>\d\<close>: among the code points below 256 only \<open>0\<close> to \<open>9\<close> are decimal digits\<close>
  "is_digit c = (48 \<le> code c \<and> code c \<le> 57)"

definition is_space :: "char \<Rightarrow> bool" where
  \<comment> \<open>the class \<open>\s\<close> of a \<open>str\<close> pattern: tab to carriage return, the separators
      \<open>0x1c\<close> to \<open>0x1f\<close>, the blank, \<open>0x85\<close> and the no-break space\<close>
  "is_space c = ((9 \<le> code c \<and> code c \<le> 13) \<or> (28 \<le> code c \<and> code c \<le> 32)
                 \<or> code c = 133 \<or> code c = 160)"

definition lower_char :: "char \<Rightarrow> char" where
  \<comment> \<open>\<open>A\<close> to \<open>Z\<close> and the accented capitals \<open>0xc0\<close> to \<open>0xde\<close> (the sign \<open>0xd7\<close> apart)
      move up by 32; every other code point below 256 is its own lower case\<close>
  "lower_char c =
     (if (65 \<le> code c \<and> code c \<le> 90) \<or> (192 \<le> code c \<and> code c \<le> 222 \<and> code c \<noteq> 215)
      then char_of (code c + 32) else c)"

definition lower :: "string \<Rightarrow> string" where
  "lower s = map lower_char s"

subsection \<open>The regular expressions of the source and \<open>re.search\<close>\<close>

text \<open>
  The patterns of the source use literals, the classes \<open>\d\<close> and \<open>\s\<close>, bracket sets,
  greedy \<open>*\<close>, \<open>+\<close> and \<open>?\<close>, alternation, one capturing group and non-capturing
  groups. Repetition is only ever applied to a single character set.
\<close>

datatype citem = Ch char | Digit | Space

datatype regex =
    Chars "citem list"
  | Seq regex regex
  | Alt regex regex
  | Opt regex
  | Star "citem list"
  | Plus "citem list"
  | Group regex

fun in_item :: "char \<Rightarrow> citem \<Rightarrow> bool" where
  "in_item c (Ch d) = (c = d)"
| "in_item c Digit = is_digit c"
| "in_item c Space = is_space c"

definition in_class :: "citem list \<Rightarrow> char \<Rightarrow> bool" where
  "in_class cs c = list_ex (in_item c) cs"

text \<open>
  \<open>star cs s\<close> lists what is left of \<open>s\<close> after each way of matching \<open>[cs]*\<close> at its
  start, in the order a backtracking matcher tries them: the longest run first.
\<close>

fun star :: "citem list \<Rightarrow> string \<Rightarrow> string list" where
  "star cs [] = [[]]"
| "star cs (c # s) = (if in_class cs c then star cs s @ [c # s] else [c # s])"

text \<open>
  \<open>rmatch r s g\<close> lists the outcomes of matching \<open>r\<close> at the start of \<open>s\<close>, in
  backtracking order; an outcome is the rest of the text and the content of group 1
  (\<open>g\<close> before the match).
\<close>

fun rmatch :: "regex \<Rightarrow> string \<Rightarrow> string option \<Rightarrow> (string \<times> string option) list" where
  "rmatch (Chars cs) s g =
     (case s of [] \<Rightarrow> [] | c # r \<Rightarrow> if in_class cs c then [(r, g)] else [])"
| "rmatch (Seq a b) s g = concat (map (\<lambda>(r, h). rmatch b r h) (rmatch a s g))"
| "rmatch (Alt a b) s g = rmatch a s g @ rmatch b s g"
| "rmatch (Opt a) s g = rmatch a s g @ [(s, g)]"
| "rmatch (Star cs) s g = map (\<lambda>r. (r, g)) (star cs s)"
| "rmatch (Plus cs) s g =
     (case s of [] \<Rightarrow> [] | c # r \<Rightarrow> if in_class cs c then map (\<lambda>r. (r, g)) (star cs r) else [])"
| "rmatch (Group a) s g =
     map (\<lambda>(r, h). (r, Some (take (length s - length r) s))) (rmatch a s g)"

text \<open>
  \<open>re.search\<close>: the first outcome at the leftmost position that has one. The result is
  \<open>None\<close> when nothing matches, and otherwise \<open>match.group(1)\<close>, itself \<open>None\<close> when
  group 1 took no part in the match.
\<close>

fun search :: "regex \<Rightarrow> string \<Rightarrow> string option option" where
  "search r [] = (case rmatch r [] None of [] \<Rightarrow> None | (_, g) # _ \<Rightarrow> Some g)"
| "search r (c # s) =
     (case rmatch r (c # s) None of [] \<Rightarrow> search r s | (_, g) # _ \<Rightarrow> Some g)"

definition lit :: "string \<Rightarrow> regex \<Rightarrow> regex" where
  \<comment> \<open>a run of literal characters in front of \<open>r\<close>\<close>
  "lit w r = foldr (\<lambda>c. Seq (Chars [Ch c])) w r"

definition number :: regex where
  \<comment> \<open>\<open>(\d+(?:\.\d+)?)\<close>\<close>
  "number = Group (Seq (Plus [Digit]) (Opt (Seq (Chars [Ch CHR ''.'']) (Plus [Digit]))))"

definition ten :: regex where
  \<comment> \<open>\<open>10\<close>\<close>
  "ten = Seq (Chars [Ch CHR ''1'']) (Chars [Ch CHR ''0''])"

definition out_of_ten :: regex where
  \<comment> \<open>\<open>(\d+(?:\.\d+)?)[/\s]*(?:out of |/)?\s*10\<close>\<close>
  "out_of_ten =
     Seq number (Seq (Star [Ch CHR ''/'', Space])
       (Seq (Opt (Alt (lit ''out of'' (Chars [Ch CHR '' ''])) (Chars [Ch CHR ''/''])))
         (Seq (Star [Space]) ten)))"

definition labelled :: "string \<Rightarrow> regex" where
  \<comment> \<open>\<open>label[:\s]+(\d+(?:\.\d+)?)\<close>\<close>
  "labelled w = lit w (Seq (Plus [Ch CHR '':'', Space]) number)"

definition patterns :: "regex list" where
  "patterns =
     [labelled ''score'',
      out_of_ten,
      labelled ''rating'',
      Seq number (Seq (Star [Ch CHR ''/'', Space]) ten)]"

definition keyword_patterns :: "regex list" where
  "keyword_patterns =
     [labelled ''commercial value'',
      labelled ''value'',
      out_of_ten]"

subsection \<open>\<open>float\<close> of a captured token\<close>

fun digits_val :: "string \<Rightarrow> nat \<Rightarrow> nat" where
  "digits_val [] acc = acc"
| "digits_val (c # s) acc = digits_val s (10 * acc + (code c - 48))"

text \<open>
  \<open>float(s)\<close> on the strings made of digits and a dot, which is all group 1 of the
  patterns above can hold: digits, optionally a dot, optionally more digits, with a
  digit somewhere. Every other string is a \<open>ValueError\<close> here (Python's \<open>float\<close> also
  reads signs, exponents, blanks around the number, underscores, \<open>inf\<close> and \<open>nan\<close>).
\<close>

definition py_float :: "string \<Rightarrow> py_error + rat" where
  "py_float s =
     (let ip = takeWhile is_digit s; rest = dropWhile is_digit s
      in case rest of
           [] \<Rightarrow> if ip = [] then Inl ValueError else Inr (of_nat (digits_val ip 0))
         | c # fp \<Rightarrow>
             if c = CHR ''.'' \<and> list_all is_digit fp \<and> \<not> (ip = [] \<and> fp = [])
             then Inr (of_nat (digits_val ip 0) + of_nat (digits_val fp 0) / 10 ^ length fp)
             else Inl ValueError)"

subsection \<open>\<open>ProductAnalysisEngine.extract_numeric_score\<close>\<close>

text \<open>
  The \<open>for\<close> loop over the patterns. \<open>float(None)\<close> is a \<open>TypeError\<close>, which the
  \<open>except ValueError\<close> clause does not catch.
\<close>

fun extract_loop :: "regex list \<Rightarrow> string \<Rightarrow> rat \<Rightarrow> py_error + rat" where
  "extract_loop [] text dflt = Inr dflt"
| "extract_loop (pattern # rest) text dflt =
     (case search pattern (lower text) of
        None \<Rightarrow> extract_loop rest text dflt
      | Some None \<Rightarrow> Inl TypeError
      | Some (Some g) \<Rightarrow>
          (case py_float g of
             Inl ValueError \<Rightarrow> extract_loop rest text dflt
           | Inl e \<Rightarrow> Inl e
           | Inr score \<Rightarrow> Inr (min 10 (max 1 score))))"

definition extract_numeric_score :: "string \<Rightarrow> rat \<Rightarrow> py_error + rat" where
  "extract_numeric_score text dflt = extract_loop patterns text dflt"

subsection \<open>\<open>KeywordAnalyzer.extract_numeric_score\<close>\<close>

fun keyword_extract_loop :: "regex list \<Rightarrow> string \<Rightarrow> rat \<Rightarrow> py_error + rat" where
  "keyword_extract_loop [] text dflt = Inr dflt"
| "keyword_extract_loop (pattern # rest) text dflt =
     (case search pattern (lower text) of
        None \<Rightarrow> keyword_extract_loop rest text dflt
      | Some None \<Rightarrow> Inl TypeError
      | Some (Some g) \<Rightarrow>
          (case py_float g of
             Inl ValueError \<Rightarrow> keyword_extract_loop rest text dflt
           | Inl e \<Rightarrow> Inl e
           | Inr v \<Rightarrow> Inr v))"

definition keyword_extract_numeric_score :: "string \<Rightarrow> rat \<Rightarrow> py_error + rat" where
  "keyword_extract_numeric_score text dflt = keyword_extract_loop keyword_patterns text dflt"

subsection \<open>\<open>ProductAnalysisEngine.calculate_opportunity_score\<close>\<close>











subsection \<open>The tables of the specification\<close>



subsection \<open>Notions used in the proofs\<close>

text \<open>A regular expression without a capturing group leaves group 1 as it finds it.\<close>

fun groupless :: "regex \<Rightarrow> bool" where
  "groupless (Chars cs) = True"
| "groupless (Seq a b) = (groupless a \<and> groupless b)"
| "groupless (Alt a b) = (groupless a \<and> groupless b)"
| "groupless (Opt a) = groupless a"
| "groupless (Star cs) = True"
| "groupless (Plus cs) = True"
| "groupless (Group a) = False"

text \<open>A content of group 1 that \<open>float\<close> accepts.\<close>

definition parsed :: "string option \<Rightarrow> bool" where
  "parsed h = (\<exists>t v. h = Some t \<and> py_float t = Inr v)"

text \<open>What may follow a number in the text: a further digit, or a dot and a digit.\<close>

fun starts_with_digit :: "string \<Rightarrow> bool" where
  "starts_with_digit [] = False"
| "starts_with_digit (c # _) = is_digit c"

fun starts_with_fraction :: "string \<Rightarrow> bool" where
  "starts_with_fraction (c # d # _) = (c = CHR ''.'' \<and> is_digit d)"
| "starts_with_fraction _ = False"

section \<open>Properties of the opportunity score\<close>

subsection \<open>Auxiliary facts\<close>















subsection \<open>The weighted formula\<close>



subsection \<open>No validation of the sub-scores\<close>



subsection \<open>Missing and unrecognized inputs\<close>



subsection \<open>No clamp, and the bound of the composite\<close>



section \<open>Properties of the score extractors\<close>

subsection \<open>Outcomes of the matcher\<close>

lemma star_suffix:
  "r \<in> set (star cs s) \<Longrightarrow> \<exists>u. s = u @ r \<and> list_all (in_class cs) u"
proof (induction s)
  case Nil
  then show ?case by simp
next
  case (Cons c s)
  show ?case
  proof (cases "r = c # s")
    case True
    then show ?thesis by simp
  next
    case False
    with Cons.prems have c: "in_class cs c" and "r \<in> set (star cs s)"
      by (auto split: if_splits)
    with Cons.IH obtain u where "s = u @ r" "list_all (in_class cs) u" by blast
    with c have "c # s = (c # u) @ r \<and> list_all (in_class cs) (c # u)" by simp
    then show ?thesis by blast
  qed
qed

lemma plus_suffix:
  assumes "(r, h) \<in> set (rmatch (Plus cs) s g)"
  shows "h = g \<and> (\<exists>u. s = u @ r \<and> u \<noteq> [] \<and> list_all (in_class cs) u)"
proof (cases s)
  case Nil
  with assms show ?thesis by simp
next
  case (Cons c s')
  with assms have c: "in_class cs c" and r: "r \<in> set (star cs s')" and h: "h = g"
    by (auto split: if_splits)
  from star_suffix [OF r] obtain u where "s' = u @ r" "list_all (in_class cs) u" by blast
  with c Cons have "s = (c # u) @ r \<and> c # u \<noteq> [] \<and> list_all (in_class cs) (c # u)" by simp
  with h show ?thesis by blast
qed

lemma seq_outcome:
  "(r, h) \<in> set (rmatch (Seq a b) s g) \<longleftrightarrow>
     (\<exists>r1 h1. (r1, h1) \<in> set (rmatch a s g) \<and> (r, h) \<in> set (rmatch b r1 h1))"
  by auto

lemma chars_outcome:
  "(r, h) \<in> set (rmatch (Chars cs) s g) \<longleftrightarrow> (\<exists>c. s = c # r \<and> in_class cs c \<and> h = g)"
  by (cases s) auto

lemma rmatch_suffix:
  "(r, h) \<in> set (rmatch a s g) \<Longrightarrow> \<exists>u. s = u @ r"
proof (induction a arbitrary: s g r h)
  case (Chars cs)
  then show ?case by (auto simp add: chars_outcome)
next
  case (Seq a b)
  from Seq.prems obtain r1 h1 where 1: "(r1, h1) \<in> set (rmatch a s g)"
    and 2: "(r, h) \<in> set (rmatch b r1 h1)" by (auto simp add: seq_outcome)
  from Seq.IH(1) [OF 1] obtain u where "s = u @ r1" by blast
  moreover from Seq.IH(2) [OF 2] obtain v where "r1 = v @ r" by blast
  ultimately have "s = (u @ v) @ r" by simp
  then show ?case by blast
next
  case (Alt a b)
  then show ?case by auto
next
  case (Opt a)
  then show ?case by auto
next
  case (Star cs)
  then have "r \<in> set (star cs s)" by auto
  from star_suffix [OF this] show ?case by blast
next
  case (Plus cs)
  then show ?case using plus_suffix by blast
next
  case (Group a)
  then show ?case by auto
qed

lemma rmatch_groupless:
  "groupless a \<Longrightarrow> (r, h) \<in> set (rmatch a s g) \<Longrightarrow> h = g"
proof (induction a arbitrary: s g r h)
  case (Chars cs)
  then show ?case by (auto simp add: chars_outcome)
next
  case (Seq a b)
  from Seq.prems obtain r1 h1 where 1: "(r1, h1) \<in> set (rmatch a s g)"
    and 2: "(r, h) \<in> set (rmatch b r1 h1)" by (auto simp add: seq_outcome)
  from Seq.prems Seq.IH(1) [OF _ 1] have "h1 = g" by simp
  moreover from Seq.prems Seq.IH(2) [OF _ 2] have "h = h1" by simp
  ultimately show ?case by simp
next
  case (Alt a b)
  then show ?case by auto
next
  case (Opt a)
  then show ?case by auto
next
  case (Star cs)
  then show ?case by auto
next
  case (Plus cs)
  then show ?case using plus_suffix by blast
next
  case (Group a)
  then show ?case by simp
qed

lemma lit_outcome:
  "(r, h) \<in> set (rmatch (lit w b) s g) \<Longrightarrow> \<exists>s'. s = w @ s' \<and> (r, h) \<in> set (rmatch b s' g)"
proof (induction w arbitrary: s)
  case Nil
  then show ?case by (simp add: lit_def)
next
  case (Cons c w)
  have "lit (c # w) b = Seq (Chars [Ch c]) (lit w b)" by (simp add: lit_def)
  with Cons.prems obtain r1 h1 where 1: "(r1, h1) \<in> set (rmatch (Chars [Ch c]) s g)"
    and 2: "(r, h) \<in> set (rmatch (lit w b) r1 h1)" by (auto simp only: seq_outcome)
  from 1 have s: "s = c # r1" and "h1 = g" by (auto simp add: chars_outcome in_class_def)
  with 2 Cons.IH obtain s' where "r1 = w @ s'" "(r, h) \<in> set (rmatch b s' g)" by blast
  with s show ?case by simp
qed

lemma dot_not_digit: "\<not> is_digit CHR ''.''"
  by (simp add: is_digit_def code_def)

lemma in_class_digit: "in_class [Digit] c = is_digit c"
  by (simp add: in_class_def)

lemma in_class_dot: "in_class [Ch CHR ''.''] c = (c = CHR ''.'')"
  by (simp add: in_class_def)

lemma py_float_int:
  assumes "ds \<noteq> []" "list_all is_digit ds"
  shows "py_float ds = Inr (of_nat (digits_val ds 0))"
proof -
  from assms(2) have tw: "takeWhile is_digit ds = ds" and dw: "dropWhile is_digit ds = []"
    by (simp_all add: list_all_iff)
  show ?thesis unfolding py_float_def Let_def tw dw using assms(1) by simp
qed

lemma py_float_frac:
  assumes "ds \<noteq> []" "list_all is_digit ds" "list_all is_digit fs"
  shows "py_float (ds @ CHR ''.'' # fs) =
    Inr (of_nat (digits_val ds 0) + of_nat (digits_val fs 0) / 10 ^ length fs)"
proof -
  from assms(2) have tw: "takeWhile is_digit (ds @ CHR ''.'' # fs) = ds"
    and dw: "dropWhile is_digit (ds @ CHR ''.'' # fs) = CHR ''.'' # fs"
    by (simp_all add: list_all_iff dot_not_digit takeWhile_append2 dropWhile_append2)
  show ?thesis unfolding py_float_def Let_def tw dw using assms(1,3) by simp
qed

lemma group_outcome:
  "(r, h) \<in> set (rmatch (Group a) s g) \<longleftrightarrow>
     (\<exists>h'. (r, h') \<in> set (rmatch a s g) \<and> h = Some (take (length s - length r) s))"
  by auto

lemma opt_outcome:
  "(r, h) \<in> set (rmatch (Opt a) s g) \<longleftrightarrow> (r, h) \<in> set (rmatch a s g) \<or> (r = s \<and> h = g)"
  by auto

lemma number_outcome:
  assumes "(r, h) \<in> set (rmatch number s g)"
  shows "\<exists>ds fr. h = Some (ds @ fr) \<and> s = ds @ fr @ r \<and> ds \<noteq> [] \<and> list_all is_digit ds
           \<and> (fr = [] \<or> (\<exists>fs. fr = CHR ''.'' # fs \<and> fs \<noteq> [] \<and> list_all is_digit fs))"
proof -
  let ?frac = "Seq (Chars [Ch CHR ''.'']) (Plus [Digit])"
  let ?body = "Seq (Plus [Digit]) (Opt ?frac)"
  from assms obtain h' where body: "(r, h') \<in> set (rmatch ?body s g)"
    and h: "h = Some (take (length s - length r) s)"
    unfolding number_def group_outcome by blast
  from body obtain r1 h1 where 1: "(r1, h1) \<in> set (rmatch (Plus [Digit]) s g)"
    and 2: "(r, h') \<in> set (rmatch (Opt ?frac) r1 h1)"
    by (auto simp only: seq_outcome)
  from plus_suffix [OF 1] obtain ds where ds: "s = ds @ r1" "ds \<noteq> []" "list_all is_digit ds"
    by (auto simp add: in_class_digit [abs_def])
  from 2 have "r = r1 \<or> (r, h') \<in> set (rmatch ?frac r1 h1)"
    unfolding opt_outcome by blast
  then show ?thesis
  proof
    assume "r = r1"
    with ds h have "h = Some (ds @ []) \<and> s = ds @ [] @ r" by simp
    with ds show ?thesis by blast
  next
    assume "(r, h') \<in> set (rmatch ?frac r1 h1)"
    then obtain r2 h2 where 3: "(r2, h2) \<in> set (rmatch (Chars [Ch CHR ''.'']) r1 h1)"
      and 4: "(r, h') \<in> set (rmatch (Plus [Digit]) r2 h2)"
      by (auto simp only: seq_outcome)
    from 3 have r1: "r1 = CHR ''.'' # r2" by (auto simp add: chars_outcome in_class_dot)
    from plus_suffix [OF 4] obtain fs where fs: "r2 = fs @ r" "fs \<noteq> []" "list_all is_digit fs"
      by (auto simp add: in_class_digit [abs_def])
    from ds r1 fs h have "h = Some (ds @ CHR ''.'' # fs) \<and> s = ds @ (CHR ''.'' # fs) @ r" by simp
    with ds fs show ?thesis by blast
  qed
qed

subsection \<open>What the patterns capture\<close>

lemma number_parsed:
  assumes "(r, h) \<in> set (rmatch number s g)"
  shows "parsed h \<and> (\<exists>c \<in> set s. is_digit c)"
proof -
  from number_outcome [OF assms] obtain ds fr where h: "h = Some (ds @ fr)" and s: "s = ds @ fr @ r"
    and ds: "ds \<noteq> []" "list_all is_digit ds"
    and fr: "fr = [] \<or> (\<exists>fs. fr = CHR ''.'' # fs \<and> fs \<noteq> [] \<and> list_all is_digit fs)"
    by blast
  from fr ds have "\<exists>v. py_float (ds @ fr) = Inr v"
    by (auto simp add: py_float_int py_float_frac)
  with h have "parsed h" by (simp add: parsed_def)
  moreover from ds s have "\<exists>c \<in> set s. is_digit c"
    by (cases ds) auto
  ultimately show ?thesis by simp
qed

lemma labelled_parsed:
  assumes "(r, h) \<in> set (rmatch (labelled w) s g)"
  shows "parsed h \<and> (\<exists>c \<in> set s. is_digit c)"
proof -
  from assms obtain s' where s: "s = w @ s'"
    and "(r, h) \<in> set (rmatch (Seq (Plus [Ch CHR '':'', Space]) number) s' g)"
    unfolding labelled_def by (blast dest: lit_outcome)
  then obtain r1 h1 where 1: "(r1, h1) \<in> set (rmatch (Plus [Ch CHR '':'', Space]) s' g)"
    and 2: "(r, h) \<in> set (rmatch number r1 h1)"
    by (auto simp only: seq_outcome)
  from plus_suffix [OF 1] obtain u where u: "s' = u @ r1" by blast
  from number_parsed [OF 2] have "parsed h" and "\<exists>c \<in> set r1. is_digit c" by simp_all
  with s u show ?thesis by auto
qed

lemma number_then_parsed:
  assumes "groupless b" "(r, h) \<in> set (rmatch (Seq number b) s g)"
  shows "parsed h \<and> (\<exists>c \<in> set s. is_digit c)"
proof -
  from assms(2) obtain r1 h1 where 1: "(r1, h1) \<in> set (rmatch number s g)"
    and 2: "(r, h) \<in> set (rmatch b r1 h1)"
    by (auto simp only: seq_outcome)
  from rmatch_groupless [OF assms(1) 2] have "h = h1" .
  with number_parsed [OF 1] show ?thesis by simp
qed

lemma groupless_lit: "groupless b \<Longrightarrow> groupless (lit w b)"
  by (induction w) (simp_all add: lit_def)

lemma out_of_ten_parsed:
  assumes "(r, h) \<in> set (rmatch out_of_ten s g)"
  shows "parsed h \<and> (\<exists>c \<in> set s. is_digit c)"
proof -
  have "groupless (Seq (Star [Ch CHR ''/'', Space])
       (Seq (Opt (Alt (lit ''out of'' (Chars [Ch CHR '' ''])) (Chars [Ch CHR ''/''])))
         (Seq (Star [Space]) ten)))"
    by (simp add: groupless_lit ten_def)
  from number_then_parsed [OF this] assms show ?thesis
    unfolding out_of_ten_def by blast
qed

lemma bare_ten_parsed:
  assumes "(r, h) \<in> set (rmatch (Seq number (Seq (Star [Ch CHR ''/'', Space]) ten)) s g)"
  shows "parsed h \<and> (\<exists>c \<in> set s. is_digit c)"
proof -
  have "groupless (Seq (Star [Ch CHR ''/'', Space]) ten)"
    by (simp add: ten_def)
  from number_then_parsed [OF this] assms show ?thesis by blast
qed

lemma patterns_parsed:
  assumes "p \<in> set patterns \<union> set keyword_patterns" "(r, h) \<in> set (rmatch p s g)"
  shows "parsed h \<and> (\<exists>c \<in> set s. is_digit c)"
proof -
  from assms(1) have "(\<exists>w. p = labelled w) \<or> p = out_of_ten
      \<or> p = Seq number (Seq (Star [Ch CHR ''/'', Space]) ten)"
    unfolding patterns_def keyword_patterns_def by auto
  with assms(2) show ?thesis
    using labelled_parsed out_of_ten_parsed bare_ten_parsed by blast
qed

lemma search_outcome:
  "search p s = Some h \<Longrightarrow> \<exists>i r xs. i \<le> length s \<and> rmatch p (drop i s) None = (r, h) # xs"
proof (induction s)
  case Nil
  then show ?case by (auto split: list.splits)
next
  case (Cons c s)
  show ?case
  proof (cases "rmatch p (c # s) None")
    case Nil
    with Cons.prems have "search p s = Some h" by simp
    with Cons.IH obtain i r xs where "i \<le> length s" "rmatch p (drop i s) None = (r, h) # xs"
      by blast
    then have "Suc i \<le> length (c # s) \<and> rmatch p (drop (Suc i) (c # s)) None = (r, h) # xs"
      by simp
    then show ?thesis by blast
  next
    case (Cons x xs)
    with Cons.prems have "0 \<le> length (c # s) \<and> rmatch p (drop 0 (c # s)) None = (fst x, h) # xs"
      by (cases x) auto
    then show ?thesis by blast
  qed
qed

lemma search_None:
  "(\<forall>i \<le> length s. rmatch p (drop i s) None = []) \<Longrightarrow> search p s = None"
proof (induction s)
  case Nil
  then show ?case by simp
next
  case (Cons c s)
  from Cons.prems have "rmatch p (drop 0 (c # s)) None = []" by blast
  then have 0: "rmatch p (c # s) None = []" by simp
  have "\<forall>i \<le> length s. rmatch p (drop i s) None = []"
  proof (intro allI impI)
    fix i assume "i \<le> length s"
    then have "Suc i \<le> length (c # s)" by simp
    with Cons.prems have "rmatch p (drop (Suc i) (c # s)) None = []" by blast
    then show "rmatch p (drop i s) None = []" by simp
  qed
  with Cons.IH 0 show ?case by simp
qed

lemma search_skip:
  "(\<forall>i < length u. rmatch p (drop i (u @ v)) None = []) \<Longrightarrow> search p (u @ v) = search p v"
proof (induction u)
  case Nil
  then show ?case by simp
next
  case (Cons c u)
  from Cons.prems have "rmatch p (drop 0 ((c # u) @ v)) None = []" by (metis length_greater_0_conv list.distinct(1))
  then have 0: "rmatch p (c # u @ v) None = []" by simp
  have "\<forall>i < length u. rmatch p (drop i (u @ v)) None = []"
  proof (intro allI impI)
    fix i assume "i < length u"
    then have "Suc i < length (c # u)" by simp
    with Cons.prems have "rmatch p (drop (Suc i) ((c # u) @ v)) None = []" by blast
    then show "rmatch p (drop i (u @ v)) None = []" by simp
  qed
  with Cons.IH 0 show ?case by simp
qed

lemma search_here:
  "rmatch p s None = (r, h) # xs \<Longrightarrow> search p s = Some h"
  by (cases s) simp_all

lemma search_parsed:
  assumes "p \<in> set patterns \<union> set keyword_patterns" "search p s = Some h"
  shows "parsed h \<and> (\<exists>c \<in> set s. is_digit c)"
proof -
  from search_outcome [OF assms(2)] obtain i r xs
    where "rmatch p (drop i s) None = (r, h) # xs" by blast
  then have "(r, h) \<in> set (rmatch p (drop i s) None)" by simp
  from patterns_parsed [OF assms(1) this] have "parsed h" and "\<exists>c \<in> set (drop i s). is_digit c"
    by simp_all
  then show ?thesis by (auto dest: in_set_dropD)
qed

subsection \<open>The loop over the patterns\<close>

lemma code_char_of: "code (char_of n) = n mod 256"
  by (simp add: code_def)

lemma lower_char_digit: "is_digit (lower_char c) = is_digit c"
  by (auto simp add: lower_char_def is_digit_def code_char_of)

lemma lower_no_digit:
  "\<forall>c \<in> set text. \<not> is_digit c \<Longrightarrow> \<forall>c \<in> set (lower text). \<not> is_digit c"
  by (auto simp add: lower_def lower_char_digit)

lemma extract_loop_no_match:
  "(\<forall>p \<in> set ps. search p (lower text) = None) \<Longrightarrow> extract_loop ps text d = Inr d"
  by (induction ps) simp_all

lemma extract_loop_at:
  assumes "i < length ps" "\<forall>j < i. search (ps ! j) (lower text) = None"
    and "search (ps ! i) (lower text) = Some (Some t)" "py_float t = Inr v"
  shows "extract_loop ps text d = Inr (min 10 (max 1 v))"
  using assms
proof (induction ps arbitrary: i)
  case Nil
  then show ?case by simp
next
  case (Cons p ps)
  show ?case
  proof (cases i)
    case 0
    with Cons.prems show ?thesis by simp
  next
    case (Suc k)
    with Cons.prems have "search p (lower text) = None" by auto
    moreover from Suc Cons.prems have "k < length ps" "\<forall>j < k. search (ps ! j) (lower text) = None"
      "search (ps ! k) (lower text) = Some (Some t)" by auto
    ultimately show ?thesis using Cons.IH Cons.prems(4) by simp
  qed
qed

lemma extract_loop_total:
  assumes "\<forall>p \<in> set ps. \<forall>h. search p (lower text) = Some h \<longrightarrow> parsed h"
  shows "\<exists>v. extract_loop ps text d = Inr v"
  using assms
proof (induction ps)
  case Nil
  then show ?case by simp
next
  case (Cons p ps)
  show ?case
  proof (cases "search p (lower text)")
    case None
    with Cons show ?thesis by simp
  next
    case (Some h)
    with Cons.prems have "parsed h" by simp
    then obtain t v where "h = Some t" "py_float t = Inr v" by (auto simp add: parsed_def)
    with Some show ?thesis by simp
  qed
qed

lemma patterns_search_parsed:
  "\<forall>p \<in> set patterns. \<forall>h. search p s = Some h \<longrightarrow> parsed h"
  using search_parsed by blast

lemma patterns_need_digit:
  assumes "\<forall>c \<in> set s. \<not> is_digit c"
  shows "\<forall>p \<in> set patterns. search p s = None"
proof
  fix p assume p: "p \<in> set patterns"
  show "search p s = None"
  proof (cases "search p s")
    case None
    then show ?thesis .
  next
    case (Some h)
    from p have "p \<in> set patterns \<union> set keyword_patterns" by simp
    from search_parsed [OF this Some] assms show ?thesis by blast
  qed
qed

subsection \<open>The extractor returns a value\<close>

text \<open>
  Claim C3. \<open>extract_numeric_score\<close> returns a value for every text and default and
  raises nothing. When no pattern matches, and in particular when the text holds no
  digit, it returns the default as it is. In the loop, a matched token on which \<open>float\<close>
  raises \<open>ValueError\<close> passes control to the remaining patterns.
\<close>

theorem extractor_never_fails:
  "(\<exists>v. extract_numeric_score text dflt = Inr v)
   \<and> ((\<forall>p \<in> set patterns. search p (lower text) = None) \<longrightarrow>
        extract_numeric_score text dflt = Inr dflt)
   \<and> ((\<forall>c \<in> set text. \<not> is_digit c) \<longrightarrow> extract_numeric_score text dflt = Inr dflt)
   \<and> (search pattern (lower text) = Some (Some g) \<and> py_float g = Inl ValueError \<longrightarrow>
        extract_loop (pattern # rest) text dflt = extract_loop rest text dflt)"
proof (intro conjI impI)
  show "\<exists>v. extract_numeric_score text dflt = Inr v"
    unfolding extract_numeric_score_def
    using patterns_search_parsed by (rule extract_loop_total)
next
  assume "\<forall>p \<in> set patterns. search p (lower text) = None"
  then show "extract_numeric_score text dflt = Inr dflt"
    unfolding extract_numeric_score_def by (rule extract_loop_no_match)
next
  assume "\<forall>c \<in> set text. \<not> is_digit c"
  then have "\<forall>c \<in> set (lower text). \<not> is_digit c" by (rule lower_no_digit)
  then have "\<forall>p \<in> set patterns. search p (lower text) = None" by (rule patterns_need_digit)
  then show "extract_numeric_score text dflt = Inr dflt"
    unfolding extract_numeric_score_def by (rule extract_loop_no_match)
next
  assume "search pattern (lower text) = Some (Some g) \<and> py_float g = Inl ValueError"
  then show "extract_loop (pattern # rest) text dflt = extract_loop rest text dflt"
    by simp
qed

theorem extractor_never_fails_witness:
  "search (labelled ''score'') (lower ''no number here'') = None
   \<and> search (Group (Chars [Ch CHR ''n''])) (lower ''no number here'') = Some (Some ''n'')
   \<and> py_float ''n'' = Inl ValueError
   \<and> extract_loop [Group (Chars [Ch CHR ''n''])] ''no number here'' 42 = Inr 42
   \<and> extract_numeric_score ''no number here'' 42 = Inr 42"
proof -
  have a: "\<forall>c \<in> set ''no number here''. \<not> is_digit c"
    by (simp add: is_digit_def code_def)
  have b: "search (Group (Chars [Ch CHR ''n''])) (lower ''no number here'') = Some (Some ''n'')
      \<and> py_float ''n'' = Inl ValueError"
    by code_simp
  have c: "search (labelled ''score'') (lower ''no number here'') = None"
    by code_simp
  have d: "\<forall>p \<in> set patterns. search p (lower ''no number here'') = None"
    using a by (intro patterns_need_digit lower_no_digit)
  from extractor_never_fails [of "''no number here''" 42 "Group (Chars [Ch CHR ''n''])" "''n''" "[]"] a b d
  have "extract_numeric_score ''no number here'' 42 = Inr 42
    \<and> extract_loop [Group (Chars [Ch CHR ''n''])] ''no number here'' 42 = extract_loop [] ''no number here'' 42"
    by blast
  with b c show ?thesis by simp
qed

subsection \<open>Priority of the patterns\<close>

text \<open>
  Claim C4. The patterns are tried in the order of the list, each over the whole
  lower-cased text: when the \<open>score\<close> label pattern matches, the result is the clamped
  value of its leftmost match, whatever the later patterns match and wherever. More
  generally the result comes from the first pattern of the list that matches.
\<close>

theorem score_label_first:
  "(search (labelled ''score'') (lower text) = Some h \<longrightarrow>
      (\<exists>t v. h = Some t \<and> py_float t = Inr v
         \<and> extract_numeric_score text dflt = Inr (min 10 (max 1 v))))
   \<and> (i < length patterns \<and> (\<forall>j < i. search (patterns ! j) (lower text) = None)
        \<and> search (patterns ! i) (lower text) = Some h \<longrightarrow>
      (\<exists>t v. h = Some t \<and> py_float t = Inr v
         \<and> extract_numeric_score text dflt = Inr (min 10 (max 1 v))))"
proof -
  have at: "\<exists>t v. h = Some t \<and> py_float t = Inr v
         \<and> extract_numeric_score text dflt = Inr (min 10 (max 1 v))"
    if i: "i < length patterns" and before: "\<forall>j < i. search (patterns ! j) (lower text) = None"
      and here: "search (patterns ! i) (lower text) = Some h" for i
  proof -
    from i have "patterns ! i \<in> set patterns" by simp
    with here patterns_search_parsed have "parsed h" by blast
    then obtain t v where tv: "h = Some t" "py_float t = Inr v" by (auto simp add: parsed_def)
    with here have "search (patterns ! i) (lower text) = Some (Some t)" by simp
    from extract_loop_at [OF i before this tv(2)] tv show ?thesis
      by (simp add: extract_numeric_score_def)
  qed
  have 0: "patterns ! 0 = labelled ''score''" "0 < length patterns"
    by (simp_all add: patterns_def)
  from at [of 0] 0 have "search (labelled ''score'') (lower text) = Some h \<longrightarrow>
      (\<exists>t v. h = Some t \<and> py_float t = Inr v
         \<and> extract_numeric_score text dflt = Inr (min 10 (max 1 v)))"
    by simp
  with at show ?thesis by blast
qed

theorem score_label_first_witness:
  "search (labelled ''score'') (lower ''8/10 but Score: 3'') = Some (Some ''3'')
   \<and> search out_of_ten (lower ''8/10 but Score: 3'') = Some (Some ''8'')
   \<and> py_float ''3'' = Inr 3
   \<and> extract_numeric_score ''8/10 but Score: 3'' 5 = Inr 3"
proof -
  have a: "search (labelled ''score'') (lower ''8/10 but Score: 3'') = Some (Some ''3'')"
    by code_simp
  have b: "search out_of_ten (lower ''8/10 but Score: 3'') = Some (Some ''8'')"
    by code_simp
  have c: "py_float ''3'' = Inr 3"
    by code_simp
  from score_label_first [of "''8/10 but Score: 3''" "Some ''3''" 5] a
  obtain t v where "Some ''3'' = Some t" "py_float t = Inr v"
    "extract_numeric_score ''8/10 but Score: 3'' 5 = Inr (min 10 (max 1 v))"
    by blast
  with c have "extract_numeric_score ''8/10 but Score: 3'' 5 = Inr 3" by simp
  with a b c show ?thesis by simp
qed

subsection \<open>The first outcome of a match\<close>

lemma star_first: "\<exists>xs. star cs s = dropWhile (in_class cs) s # xs"
  by (induction s) auto

lemma seq_first:
  "rmatch a s g = (r1, h1) # xs \<Longrightarrow> rmatch b r1 h1 = y # ys \<Longrightarrow> \<exists>zs. rmatch (Seq a b) s g = y # zs"
  by simp

lemma opt_first_none: "rmatch a s g = [] \<Longrightarrow> rmatch (Opt a) s g = [(s, g)]"
  by simp

lemma opt_first_some: "rmatch a s g = y # ys \<Longrightarrow> \<exists>zs. rmatch (Opt a) s g = y # zs"
  by simp

lemma group_first:
  "rmatch a s g = (r, h) # xs \<Longrightarrow>
   \<exists>zs. rmatch (Group a) s g = (r, Some (take (length s - length r) s)) # zs"
  by simp

lemma plus_digit_first:
  assumes "is_digit c"
  shows "\<exists>xs. rmatch (Plus [Digit]) (c # s) g = (dropWhile is_digit s, g) # xs"
proof -
  from star_first obtain xs where "star [Digit] s = dropWhile (in_class [Digit]) s # xs" by blast
  moreover have "in_class [Digit] = is_digit" by (rule ext) (rule in_class_digit)
  ultimately show ?thesis using assms by (simp add: in_class_digit)
qed

lemma frac_first:
  assumes "is_digit d"
  shows "\<exists>xs. rmatch (Seq (Chars [Ch CHR ''.'']) (Plus [Digit])) (CHR ''.'' # d # s) g
           = (dropWhile is_digit s, g) # xs"
proof -
  have "rmatch (Chars [Ch CHR ''.'']) (CHR ''.'' # d # s) g = (d # s, g) # []"
    by (simp add: in_class_dot)
  moreover from plus_digit_first [OF assms] obtain xs
    where "rmatch (Plus [Digit]) (d # s) g = (dropWhile is_digit s, g) # xs" by blast
  ultimately show ?thesis by (rule seq_first)
qed

lemma frac_none:
  assumes "\<not> starts_with_fraction s"
  shows "rmatch (Seq (Chars [Ch CHR ''.'']) (Plus [Digit])) s g = []"
proof (cases s)
  case Nil
  then show ?thesis by simp
next
  case (Cons c s')
  show ?thesis
  proof (cases s')
    case Nil
    with Cons show ?thesis by (simp add: in_class_dot)
  next
    case (Cons d s'')
    with \<open>s = c # s'\<close> assms show ?thesis
      by (auto simp add: in_class_dot in_class_digit)
  qed
qed

lemma take_prefix: "take (length (u @ r) - length r) (u @ r) = u"
  by simp

lemma number_first_int:
  assumes "is_digit c" "\<not> starts_with_fraction (dropWhile is_digit s)"
  shows "\<exists>xs. rmatch number (c # s) g
           = (dropWhile is_digit s, Some (c # takeWhile is_digit s)) # xs"
proof -
  let ?frac = "Seq (Chars [Ch CHR ''.'']) (Plus [Digit])"
  let ?rest = "dropWhile is_digit s"
  from plus_digit_first [OF assms(1)] obtain xs
    where 1: "rmatch (Plus [Digit]) (c # s) g = (?rest, g) # xs" by blast
  from frac_none [OF assms(2)] have "rmatch (Opt ?frac) ?rest g = (?rest, g) # []"
    by (rule opt_first_none)
  from seq_first [OF 1 this] obtain zs
    where "rmatch (Seq (Plus [Digit]) (Opt ?frac)) (c # s) g = (?rest, g) # zs" by blast
  from group_first [OF this] obtain ys where
    "rmatch number (c # s) g = (?rest, Some (take (length (c # s) - length ?rest) (c # s))) # ys"
    unfolding number_def by blast
  moreover have "c # s = (c # takeWhile is_digit s) @ ?rest" by simp
  then have "take (length (c # s) - length ?rest) (c # s) = c # takeWhile is_digit s"
    by (metis take_prefix)
  ultimately show ?thesis by simp
qed

lemma number_first_frac:
  assumes "is_digit c" "dropWhile is_digit s = CHR ''.'' # d # s'" "is_digit d"
  shows "\<exists>xs. rmatch number (c # s) g
           = (dropWhile is_digit s',
              Some (c # takeWhile is_digit s @ CHR ''.'' # d # takeWhile is_digit s')) # xs"
proof -
  let ?frac = "Seq (Chars [Ch CHR ''.'']) (Plus [Digit])"
  let ?rest = "dropWhile is_digit s'"
  let ?tok = "c # takeWhile is_digit s @ CHR ''.'' # d # takeWhile is_digit s'"
  from plus_digit_first [OF assms(1)] obtain xs
    where "rmatch (Plus [Digit]) (c # s) g = (dropWhile is_digit s, g) # xs" by blast
  then have 1: "rmatch (Plus [Digit]) (c # s) g = (CHR ''.'' # d # s', g) # xs"
    unfolding assms(2) .
  from frac_first [OF assms(3)] obtain ys
    where "rmatch ?frac (CHR ''.'' # d # s') g = (?rest, g) # ys" by blast
  from opt_first_some [OF this] obtain ys'
    where "rmatch (Opt ?frac) (CHR ''.'' # d # s') g = (?rest, g) # ys'" by blast
  from seq_first [OF 1 this] obtain zs
    where "rmatch (Seq (Plus [Digit]) (Opt ?frac)) (c # s) g = (?rest, g) # zs" by blast
  from group_first [OF this] obtain ws where
    "rmatch number (c # s) g = (?rest, Some (take (length (c # s) - length ?rest) (c # s))) # ws"
    unfolding number_def by blast
  moreover have "s = takeWhile is_digit s @ dropWhile is_digit s" by simp
  with assms(2) have "s = takeWhile is_digit s @ CHR ''.'' # d # s'" by simp
  moreover have "s' = takeWhile is_digit s' @ ?rest" by simp
  ultimately have "c # s = ?tok @ ?rest" by (metis append.assoc append_Cons)
  then have "take (length (c # s) - length ?rest) (c # s) = ?tok"
    by (metis take_prefix)
  with \<open>rmatch number (c # s) g = (?rest, Some (take (length (c # s) - length ?rest) (c # s))) # ws\<close>
  show ?thesis by simp
qed

lemma lit_match: "rmatch (lit w b) (w @ s) g = rmatch b s g"
proof (induction w)
  case Nil
  then show ?case by (simp add: lit_def)
next
  case (Cons c w)
  have "lit (c # w) b = Seq (Chars [Ch c]) (lit w b)" by (simp add: lit_def)
  with Cons show ?case by (simp add: in_class_def)
qed

lemma digit_not_separator: "is_digit c \<Longrightarrow> \<not> in_class [Ch CHR '':'', Space] c"
  by (auto simp add: in_class_def is_digit_def is_space_def code_def)

lemma label_separator: "in_class [Ch CHR '':'', Space] CHR '':''" "in_class [Ch CHR '':'', Space] CHR '' ''"
  by (simp_all add: in_class_def is_space_def code_def)

lemma labelled_first:
  assumes "is_digit c" "rmatch number (c # s) g = y # ys"
  shows "\<exists>zs. rmatch (labelled w) (w @ '': '' @ c # s) g = y # zs"
proof -
  from assms(1) have "rmatch (Plus [Ch CHR '':'', Space]) ('': '' @ c # s) g
      = (c # s, g) # [('' '' @ c # s, g)]"
    by (simp add: digit_not_separator label_separator)
  from seq_first [OF this] assms(2) obtain zs
    where "rmatch (Seq (Plus [Ch CHR '':'', Space]) number) ('': '' @ c # s) g = y # zs"
    by (cases y) blast
  then show ?thesis by (simp add: labelled_def lit_match)
qed

lemma digits_val_ge: "acc \<le> digits_val s acc"
proof (induction s arbitrary: acc)
  case Nil
  then show ?case by simp
next
  case (Cons c s)
  have "acc \<le> 10 * acc + (code c - 48)" by simp
  also have "\<dots> \<le> digits_val s (10 * acc + (code c - 48))" by (rule Cons.IH)
  finally show ?case by simp
qed

subsection \<open>Lower case and the leftmost match of the \<open>score\<close> label\<close>

lemma lower_append: "lower (a @ b) = lower a @ lower b"
  by (simp add: lower_def)

lemma length_lower: "length (lower s) = length s"
  by (simp add: lower_def)

lemma lower_char_digit_id: "is_digit c \<Longrightarrow> lower_char c = c"
  by (simp add: lower_char_def is_digit_def)

lemma lower_digits: "list_all is_digit ds \<Longrightarrow> lower ds = ds"
  by (induction ds) (simp_all add: lower_def lower_char_digit_id)

lemma lower_char_dot: "lower_char c = CHR ''.'' \<longleftrightarrow> c = CHR ''.''"
proof
  assume a: "lower_char c = CHR ''.''"
  show "c = CHR ''.''"
  proof (cases "(65 \<le> code c \<and> code c \<le> 90) \<or> (192 \<le> code c \<and> code c \<le> 222 \<and> code c \<noteq> 215)")
    case True
    then have "code (lower_char c) = code c + 32"
      by (auto simp add: lower_char_def code_char_of)
    with a True show ?thesis by (auto simp add: code_def)
  next
    case False
    with a show ?thesis by (simp add: lower_char_def)
  qed
next
  assume "c = CHR ''.''"
  then show "lower_char c = CHR ''.''" by (simp add: lower_char_def code_def)
qed

lemma starts_with_digit_lower: "starts_with_digit (lower s) = starts_with_digit s"
  by (cases s) (simp_all add: lower_def lower_char_digit)

lemma starts_with_fraction_lower: "starts_with_fraction (lower s) = starts_with_fraction s"
proof (cases s)
  case Nil
  then show ?thesis by (simp add: lower_def)
next
  case (Cons c s')
  then show ?thesis
    by (cases s') (simp_all add: lower_def lower_char_digit lower_char_dot)
qed

lemma lower_score_label: "lower ''score: '' = ''score: ''"
  by code_simp

lemma digit_run:
  assumes "list_all is_digit xs" "\<not> starts_with_digit ys"
  shows "takeWhile is_digit (xs @ ys) = xs \<and> dropWhile is_digit (xs @ ys) = ys"
  using assms
proof (induction xs)
  case Nil
  then show ?case by (cases ys) simp_all
next
  case (Cons x xs)
  then show ?case by simp
qed

lemma score_first_match:
  assumes "\<forall>i < length u. rmatch (labelled ''score'') (drop i (u @ ''score: '' @ c # s)) None = []"
    and "is_digit c" "rmatch number (c # s) None = (r, h) # xs"
  shows "search (labelled ''score'') (u @ ''score: '' @ c # s) = Some h"
proof -
  from labelled_first [OF assms(2,3), of "''score''"] obtain zs
    where "rmatch (labelled ''score'') (''score'' @ '': '' @ c # s) None = (r, h) # zs" by blast
  then have "rmatch (labelled ''score'') (''score: '' @ c # s) None = (r, h) # zs" by simp
  then have "search (labelled ''score'') (''score: '' @ c # s) = Some h" by (rule search_here)
  with search_skip [OF assms(1)] show ?thesis by simp
qed

lemma number_first_any:
  assumes "is_digit c"
  shows "\<exists>r t v xs. rmatch number (c # s) g = (r, Some t) # xs \<and> py_float t = Inr v
           \<and> of_nat (digits_val (c # takeWhile is_digit s) 0) \<le> v"
proof (cases "starts_with_fraction (dropWhile is_digit s)")
  case False
  let ?ip = "c # takeWhile is_digit s"
  from number_first_int [OF assms False] obtain xs
    where 1: "rmatch number (c # s) g = (dropWhile is_digit s, Some ?ip) # xs" by blast
  have "list_all is_digit ?ip" using assms by (auto simp add: list_all_iff dest: set_takeWhileD)
  then have "py_float ?ip = Inr (of_nat (digits_val ?ip 0))" by (intro py_float_int) simp_all
  with 1 show ?thesis by blast
next
  case True
  then obtain d s' where rest: "dropWhile is_digit s = CHR ''.'' # d # s'" and d: "is_digit d"
    by (cases "dropWhile is_digit s" rule: starts_with_fraction.cases) auto
  let ?ip = "c # takeWhile is_digit s"
  let ?fs = "d # takeWhile is_digit s'"
  from number_first_frac [OF assms rest d] obtain xs
    where 1: "rmatch number (c # s) g = (dropWhile is_digit s', Some (?ip @ CHR ''.'' # ?fs)) # xs"
    by auto
  have ip: "list_all is_digit ?ip" using assms by (auto simp add: list_all_iff dest: set_takeWhileD)
  have fs: "list_all is_digit ?fs" using d by (auto simp add: list_all_iff dest: set_takeWhileD)
  have "py_float (?ip @ CHR ''.'' # ?fs)
      = Inr (of_nat (digits_val ?ip 0) + of_nat (digits_val ?fs 0) / 10 ^ length ?fs)"
    using ip fs by (intro py_float_frac) simp_all
  moreover have "(of_nat (digits_val ?ip 0) :: rat)
      \<le> of_nat (digits_val ?ip 0) + of_nat (digits_val ?fs 0) / 10 ^ length ?fs"
    by simp
  ultimately show ?thesis using 1 by blast
qed

lemma lower_Cons: "lower (c # s) = lower_char c # lower s"
  by (simp add: lower_def)

subsection \<open>Clamping of a matched value\<close>

text \<open>
  A text may contain \<open>score: 15\<close> and yet give another value: the leftmost match of the
  label pattern decides, here \<open>score: 3\<close>.
\<close>

theorem later_score_15_counterexample:
  "extract_numeric_score ''score: 3 then score: 15'' 5 = Inr 3"
  by code_simp

text \<open>
  Claim C2, as amended. Whenever some pattern matches, the result is the \<open>float\<close> of
  group 1 of the first pattern of the list that matches, clamped into \<open>[1, 10]\<close>. In
  particular every text containing \<open>score: 15\<close> yields 10, provided that no match of
  the \<open>score\<close> label pattern begins in the lower-cased text before that occurrence.
\<close>

theorem matched_value_clamped:
  "((\<exists>p \<in> set patterns. search p (lower text) \<noteq> None) \<longrightarrow>
      (\<exists>i < length patterns. \<exists>t v.
          (\<forall>j < i. search (patterns ! j) (lower text) = None)
          \<and> search (patterns ! i) (lower text) = Some (Some t) \<and> py_float t = Inr v
          \<and> extract_numeric_score text dflt = Inr (min 10 (max 1 v))
          \<and> 1 \<le> min 10 (max 1 v) \<and> min 10 (max 1 v) \<le> 10))
   \<and> ((\<forall>i < length pre.
          rmatch (labelled ''score'') (drop i (lower (pre @ ''score: 15'' @ post))) None = []) \<longrightarrow>
        extract_numeric_score (pre @ ''score: 15'' @ post) dflt = Inr 10)"
proof (intro conjI impI)
  assume ex: "\<exists>p \<in> set patterns. search p (lower text) \<noteq> None"
  define P where "P i \<longleftrightarrow> i < length patterns \<and> search (patterns ! i) (lower text) \<noteq> None" for i
  from ex obtain p where p: "p \<in> set patterns" "search p (lower text) \<noteq> None" by blast
  from p(1) obtain i0 where "i0 < length patterns" "patterns ! i0 = p"
    by (auto simp add: in_set_conv_nth)
  with p(2) have "P i0" unfolding P_def by simp
  define k where "k = (LEAST i. P i)"
  have k: "P k" unfolding k_def using \<open>P i0\<close> by (rule LeastI)
  have before: "\<forall>j < k. search (patterns ! j) (lower text) = None"
  proof (intro allI impI)
    fix j assume j: "j < k"
    then have "\<not> P j" unfolding k_def by (rule not_less_Least)
    moreover from j k have "j < length patterns" unfolding P_def by simp
    ultimately show "search (patterns ! j) (lower text) = None" unfolding P_def by simp
  qed
  from k obtain h where h: "search (patterns ! k) (lower text) = Some h"
    and kl: "k < length patterns" unfolding P_def by auto
  from kl have "patterns ! k \<in> set patterns" by simp
  with h patterns_search_parsed have "parsed h" by blast
  then obtain t v where tv: "h = Some t" "py_float t = Inr v" by (auto simp add: parsed_def)
  with h have here: "search (patterns ! k) (lower text) = Some (Some t)" by simp
  from extract_loop_at [OF kl before here tv(2), of dflt]
  have "extract_numeric_score text dflt = Inr (min 10 (max 1 v))"
    by (simp add: extract_numeric_score_def)
  moreover have "1 \<le> min 10 (max 1 v) \<and> min 10 (max 1 v) \<le> 10" by simp
  ultimately show "\<exists>i < length patterns. \<exists>t v.
          (\<forall>j < i. search (patterns ! j) (lower text) = None)
          \<and> search (patterns ! i) (lower text) = Some (Some t) \<and> py_float t = Inr v
          \<and> extract_numeric_score text dflt = Inr (min 10 (max 1 v))
          \<and> 1 \<le> min 10 (max 1 v) \<and> min 10 (max 1 v) \<le> 10"
    using kl before here tv(2) by blast
next
  let ?s = "CHR ''5'' # lower post"
  assume "\<forall>i < length pre.
          rmatch (labelled ''score'') (drop i (lower (pre @ ''score: 15'' @ post))) None = []"
  moreover have low: "lower (pre @ ''score: 15'' @ post) = lower pre @ ''score: '' @ CHR ''1'' # ?s"
    by (simp add: lower_def lower_char_def code_def)
  ultimately have skip: "\<forall>i < length (lower pre).
      rmatch (labelled ''score'') (drop i (lower pre @ ''score: '' @ CHR ''1'' # ?s)) None = []"
    by (simp add: length_lower)
  have one: "is_digit CHR ''1''" by (simp add: is_digit_def code_def)
  from number_first_any [OF one, of ?s None] obtain r t v xs
    where m: "rmatch number (CHR ''1'' # ?s) None = (r, Some t) # xs" and t: "py_float t = Inr v"
      and v: "of_nat (digits_val (CHR ''1'' # takeWhile is_digit ?s) 0) \<le> v" by blast
  have "takeWhile is_digit ?s = CHR ''5'' # takeWhile is_digit (lower post)"
    by (simp add: is_digit_def code_def)
  then have "digits_val (CHR ''1'' # takeWhile is_digit ?s) 0
      = digits_val (takeWhile is_digit (lower post)) 15"
    by (simp add: code_def)
  with digits_val_ge [of 15 "takeWhile is_digit (lower post)"]
  have "15 \<le> digits_val (CHR ''1'' # takeWhile is_digit ?s) 0" by simp
  then have "(15::rat) \<le> of_nat (digits_val (CHR ''1'' # takeWhile is_digit ?s) 0)"
    by (metis of_nat_le_iff of_nat_numeral)
  with v have "10 \<le> v" by linarith
  then have clamp: "min 10 (max 1 v) = 10" by simp
  from score_first_match [OF skip one m] low
  have "search (patterns ! 0) (lower (pre @ ''score: 15'' @ post)) = Some (Some t)"
    by (simp add: patterns_def)
  from extract_loop_at [OF _ _ this t, of dflt] clamp
  show "extract_numeric_score (pre @ ''score: 15'' @ post) dflt = Inr 10"
    by (simp add: extract_numeric_score_def patterns_def)
qed

theorem matched_value_clamped_witness:
  "labelled ''score'' \<in> set patterns
   \<and> search (labelled ''score'') (lower ''Overall Score: 15 points'') = Some (Some ''15'')
   \<and> py_float ''15'' = Inr 15
   \<and> extract_numeric_score (''Overall '' @ ''score: 15'' @ '' points'') 5 = Inr 10
   \<and> (\<exists>r. extract_numeric_score ''Overall Score: 15 points'' 5 = Inr r \<and> 1 \<le> r \<and> r \<le> 10)"
proof -
  have a: "labelled ''score'' \<in> set patterns" by (simp add: patterns_def)
  have b: "search (labelled ''score'') (lower ''Overall Score: 15 points'') = Some (Some ''15'')"
    by code_simp
  have c: "py_float ''15'' = Inr 15" by code_simp
  have d: "\<forall>i < length ''Overall ''.
     rmatch (labelled ''score'') (drop i (lower (''Overall '' @ ''score: 15'' @ '' points''))) None = []"
    by code_simp
  from a b have e: "\<exists>p \<in> set patterns. search p (lower ''Overall Score: 15 points'') \<noteq> None"
    by force
  from matched_value_clamped [of "''Overall Score: 15 points''" 5 "''Overall ''" "'' points''"] d e
  have "(\<exists>i < length patterns. \<exists>t v.
          (\<forall>j < i. search (patterns ! j) (lower ''Overall Score: 15 points'') = None)
          \<and> search (patterns ! i) (lower ''Overall Score: 15 points'') = Some (Some t)
          \<and> py_float t = Inr v
          \<and> extract_numeric_score ''Overall Score: 15 points'' 5 = Inr (min 10 (max 1 v))
          \<and> 1 \<le> min 10 (max 1 v) \<and> min 10 (max 1 v) \<le> 10)
      \<and> extract_numeric_score (''Overall '' @ ''score: 15'' @ '' points'') 5 = Inr 10"
    by blast
  then have "extract_numeric_score (''Overall '' @ ''score: 15'' @ '' points'') 5 = Inr 10"
    and "\<exists>r. extract_numeric_score ''Overall Score: 15 points'' 5 = Inr r \<and> 1 \<le> r \<and> r \<le> 10"
    by blast+
  with a b c show ?thesis by blast
qed

subsection \<open>The value after the \<open>score\<close> label\<close>

text \<open>
  A text may contain \<open>score: 7\<close> and give another value, because an earlier match of
  the label pattern decides (\<open>score: 3\<close>), or because the digits continue (\<open>75\<close>).
\<close>

theorem earlier_score_counterexample:
  "extract_numeric_score (''score: 3, later '' @ ''score: '' @ ''7'') 5 = Inr 3
   \<and> extract_numeric_score (''score: '' @ ''7'' @ ''5 percent'') 5 = Inr 10
   \<and> py_float ''7'' = Inr 7"
  by code_simp

text \<open>
  Claim C5, as amended. Let the text contain \<open>score: \<close> followed by a number written as
  digits, optionally a dot and more digits, of value \<open>n\<close> in \<open>[1, 10]\<close>. If the number
  ends there (no digit follows, nor a dot and a digit after a number without a dot) and
  no match of the \<open>score\<close> label pattern begins in the lower-cased text before this
  occurrence, then \<open>extract_numeric_score\<close> returns \<open>n\<close>, whatever the default.
\<close>

theorem score_label_value:
  assumes "\<forall>i < length pre.
      rmatch (labelled ''score'') (drop i (lower (pre @ ''score: '' @ ip @ fr @ post))) None = []"
    and "ip \<noteq> []" "list_all is_digit ip"
    and "(fr = [] \<and> \<not> starts_with_fraction post)
         \<or> (\<exists>fs. fr = CHR ''.'' # fs \<and> fs \<noteq> [] \<and> list_all is_digit fs)"
    and "\<not> starts_with_digit post"
    and "py_float (ip @ fr) = Inr n" "1 \<le> n" "n \<le> 10"
  shows "extract_numeric_score (pre @ ''score: '' @ ip @ fr @ post) dflt = Inr n"
proof -
  let ?text = "pre @ ''score: '' @ ip @ fr @ post"
  from assms(2) obtain c ip' where ip: "ip = c # ip'" by (cases ip) auto
  with assms(3) have c: "is_digit c" and ip': "list_all is_digit ip'" by simp_all
  have post: "\<not> starts_with_digit (lower post)"
    using assms(5) by (simp add: starts_with_digit_lower)
  from assms(4) have fr: "lower fr = fr"
    by (auto simp add: lower_Cons lower_char_dot lower_digits)
  have "lower ?text = lower pre @ lower ''score: '' @ lower ip @ lower fr @ lower post"
    by (simp only: lower_append)
  also have "\<dots> = lower pre @ ''score: '' @ ip @ fr @ lower post"
    by (simp only: lower_score_label lower_digits [OF assms(3)] fr)
  finally have low: "lower ?text = lower pre @ ''score: '' @ c # (ip' @ fr @ lower post)"
    by (simp add: ip)
  have first: "\<exists>r xs. rmatch number (c # (ip' @ fr @ lower post)) None = (r, Some (ip @ fr)) # xs"
    using assms(4)
  proof
    assume a: "fr = [] \<and> \<not> starts_with_fraction post"
    with digit_run [OF ip' post]
    have tw: "takeWhile is_digit (ip' @ fr @ lower post) = ip'"
      and dw: "dropWhile is_digit (ip' @ fr @ lower post) = lower post" by simp_all
    from a have "\<not> starts_with_fraction (dropWhile is_digit (ip' @ fr @ lower post))"
      unfolding dw by (simp add: starts_with_fraction_lower)
    from number_first_int [OF c this, of None] ip a show ?thesis
      unfolding tw dw by auto
  next
    assume "\<exists>fs. fr = CHR ''.'' # fs \<and> fs \<noteq> [] \<and> list_all is_digit fs"
    then obtain d fs' where frac: "fr = CHR ''.'' # d # fs'" and d: "is_digit d"
      and fs': "list_all is_digit fs'"
      by (auto simp add: neq_Nil_conv)
    have "\<not> starts_with_digit (fr @ lower post)" by (simp add: frac dot_not_digit)
    from digit_run [OF ip' this]
    have tw: "takeWhile is_digit (ip' @ fr @ lower post) = ip'"
      and dw: "dropWhile is_digit (ip' @ fr @ lower post) = CHR ''.'' # d # (fs' @ lower post)"
      by (simp_all add: frac)
    from digit_run [OF fs' post]
    have tw': "takeWhile is_digit (fs' @ lower post) = fs'"
      and dw': "dropWhile is_digit (fs' @ lower post) = lower post" by simp_all
    from number_first_frac [OF c dw d, of None] ip frac show ?thesis
      unfolding tw tw' dw' by auto
  qed
  then obtain r xs where m: "rmatch number (c # (ip' @ fr @ lower post)) None = (r, Some (ip @ fr)) # xs"
    by blast
  from assms(1) have skip: "\<forall>i < length (lower pre).
      rmatch (labelled ''score'') (drop i (lower pre @ ''score: '' @ c # (ip' @ fr @ lower post))) None = []"
    unfolding low by (simp add: length_lower)
  from score_first_match [OF skip c m] low
  have "search (patterns ! 0) (lower ?text) = Some (Some (ip @ fr))"
    by (simp add: patterns_def)
  from extract_loop_at [OF _ _ this assms(6), of dflt] assms(7,8)
  show ?thesis
    by (simp add: extract_numeric_score_def patterns_def)
qed

theorem score_label_value_witness:
  "(''7'' :: string) \<noteq> [] \<and> list_all is_digit ''7''
   \<and> list_all is_digit ''5'' \<and> \<not> starts_with_digit ''. Good''
   \<and> py_float (''7'' @ ''.5'') = Inr (15 / 2) \<and> (1::rat) \<le> 15 / 2 \<and> (15 / 2 :: rat) \<le> 10
   \<and> extract_numeric_score (''Trend Score: n/a. Final '' @ ''score: '' @ ''7'' @ ''.5'' @ ''. Good'') 3
       = Inr (15 / 2)"
proof -
  have a: "\<forall>i < length ''Trend Score: n/a. Final ''.
      rmatch (labelled ''score'')
        (drop i (lower (''Trend Score: n/a. Final '' @ ''score: '' @ ''7'' @ ''.5'' @ ''. Good''))) None = []"
    by code_simp
  have b: "(''7'' :: string) \<noteq> []" "list_all is_digit ''7''" by code_simp+
  have c: "(''.5'' = [] \<and> \<not> starts_with_fraction ''. Good'')
         \<or> (\<exists>fs. ''.5'' = CHR ''.'' # fs \<and> fs \<noteq> [] \<and> list_all is_digit fs)"
    by (simp add: is_digit_def code_def)
  have d: "\<not> starts_with_digit ''. Good''" by code_simp
  have e: "py_float (''7'' @ ''.5'') = Inr (15 / 2)" by code_simp
  have f: "(1::rat) \<le> 15 / 2" "(15 / 2 :: rat) \<le> 10" by simp_all
  have g: "list_all is_digit ''5''" by code_simp
  from score_label_value [OF a b c d e f, of 3] b d e f g show ?thesis by blast
qed

subsection \<open>Evaluated instances\<close>

text \<open>
  Claim C10. The patterns with the suffix \<open>10\<close> accept a digit run directly followed by
  the digits \<open>10\<close>: on the text \<open>in 2010\<close> the label pattern finds nothing, the suffix
  patterns capture \<open>20\<close>, and the extractor returns the clamped value 10 for every
  default.
\<close>

theorem year_matches_ten_suffix:
  "extract_numeric_score ''in 2010'' dflt = Inr 10
   \<and> search (patterns ! 0) (lower ''in 2010'') = None
   \<and> search (patterns ! 1) (lower ''in 2010'') = Some (Some ''20'')
   \<and> search (patterns ! 3) (lower ''in 2010'') = Some (Some ''20'')
   \<and> py_float ''20'' = Inr 20"
  by code_simp

text \<open>
  Claim C6. \<open>KeywordAnalyzer.extract_numeric_score\<close> returns the parsed value as it is:
  on \<open>commercial value: 15\<close> it returns 15, where
  \<open>ProductAnalysisEngine.extract_numeric_score\<close> returns 10 on \<open>score: 15\<close>.
\<close>

theorem keyword_score_not_clamped:
  "keyword_extract_numeric_score ''commercial value: 15'' 5 = Inr 15
   \<and> extract_numeric_score ''score: 15'' 5 = Inr 10"
  by code_simp

end
